theory Spec2Isabelle
  imports Main "HOL-Library.Sublist"
begin

section \<open>Text as the program has it\<close>

text \<open>
  A Python \<open>str\<close> is a sequence of code points. The model takes \<open>string\<close>
  (a list of \<open>char\<close>), one \<open>char\<close> per code point, which covers the
  code points below 256. The two character classes the program relies on are written
  out for that range: what \<open>str.strip()\<close> removes and what the regular expression
  engine folds under \<open>re.IGNORECASE\<close>.
\<close>

definition newline :: char where
  "newline = CHR 0x0A"

definition backslash :: char where
  "backslash = CHR 0x5C"

definition code_point :: "char \<Rightarrow> nat" where
  "code_point c = of_char c"

text \<open>\<open>str.isspace\<close> on one character: TAB, LF, VT, FF, CR, FS, GS, RS, US, SPACE, NEL, NBSP.\<close>

definition isspace :: "char \<Rightarrow> bool" where
  "isspace c =
     (let n = code_point c
      in (9 \<le> n \<and> n \<le> 13) \<or> (28 \<le> n \<and> n \<le> 32) \<or> n = 133 \<or> n = 160)"

text \<open>\<open>s.lstrip()\<close>, \<open>s.rstrip()\<close>, \<open>s.strip()\<close> with no argument.\<close>

definition lstrip :: "string \<Rightarrow> string" where
  "lstrip s = dropWhile isspace s"

definition rstrip :: "string \<Rightarrow> string" where
  "rstrip s = rev (dropWhile isspace (rev s))"

definition strip :: "string \<Rightarrow> string" where
  "strip s = rstrip (lstrip s)"

text \<open>\<open>s.rstrip(chars)\<close>: trailing characters that occur in \<open>chars\<close> are removed.\<close>

definition rstrip_chars :: "string \<Rightarrow> string \<Rightarrow> string" where
  "rstrip_chars chars s = rev (dropWhile (\<lambda>c. c \<in> set chars) (rev s))"

text \<open>\<open>sep.join(parts)\<close>.\<close>

fun str_join :: "string \<Rightarrow> string list \<Rightarrow> string" where
  "str_join sep [] = []"
| "str_join sep [p] = p"
| "str_join sep (p # q # ps) = p @ sep @ str_join sep (q # ps)"

section \<open>Slices and ranges\<close>

text \<open>
  \<open>xs[lo:hi]\<close>: a negative bound counts from the end, and both bounds are then
  clamped to \<open>0 .. len(xs)\<close>; an empty span gives the empty list.
\<close>

definition slice_bound :: "int \<Rightarrow> int \<Rightarrow> int" where
  "slice_bound n i = (if i < 0 then max 0 (n + i) else min n i)"

definition py_slice :: "'a list \<Rightarrow> int \<Rightarrow> int \<Rightarrow> 'a list" where
  "py_slice xs lo hi =
     (let n = int (length xs); a = slice_bound n lo; b = slice_bound n hi
      in take (nat (b - a)) (drop (nat a) xs))"

text \<open>\<open>xs[:hi]\<close>.\<close>

definition py_slice_to :: "'a list \<Rightarrow> int \<Rightarrow> 'a list" where
  "py_slice_to xs hi = py_slice xs 0 hi"

text \<open>
  \<open>range(start, stop, step)\<close> for a positive step, the only kind the program
  builds: \<open>chunk_text_by_chars\<close> returns before the range when
  \<open>chunk_size <= 0\<close>.
\<close>

function py_range :: "int \<Rightarrow> int \<Rightarrow> int \<Rightarrow> int list" where
  "py_range start stop step =
     (if 0 < step \<and> start < stop then start # py_range (start + step) stop step else [])"
  by pat_completeness auto
termination
  by (relation "measure (\<lambda>(start, stop, step). nat (stop - start))") auto

declare py_range.simps [simp del]

section \<open>The chunker\<close>

text \<open>
  \<^verbatim>\<open>
  def chunk_text_by_chars(text, chunk_size):
      text = text.strip()
      if not text:
          return []
      if chunk_size <= 0:
          return [text]
      return [text[i : i + chunk_size] for i in range(0, len(text), chunk_size)]
  \<close>
\<close>

definition chunk_text_by_chars :: "string \<Rightarrow> int \<Rightarrow> string list" where
  "chunk_text_by_chars text0 chunk_size =
     (let text = strip text0
      in if text = [] then []
         else if chunk_size \<le> 0 then [text]
         else map (\<lambda>i. py_slice text i (i + chunk_size))
                  (py_range 0 (int (length text)) chunk_size))"

section \<open>Errors\<close>

text \<open>The exceptions the modelled code can raise, as values.\<close>

datatype py_error = IndexError | RegexError | FormatError | ServiceError

text \<open>\<open>xs[i]\<close>: a negative index counts from the end; out of range raises.\<close>

definition getitem :: "'a list \<Rightarrow> int \<Rightarrow> py_error + 'a" where
  "getitem xs i =
     (if 0 \<le> i \<and> i < int (length xs) then Inr (xs ! nat i)
      else if i < 0 \<and> - int (length xs) \<le> i then Inr (xs ! nat (int (length xs) + i))
      else Inl IndexError)"

text \<open>
  A list comprehension whose element expression can raise: the elements are evaluated
  left to right and the first exception ends the comprehension.
\<close>

fun collect :: "('e + 'a) list \<Rightarrow> 'e + 'a list" where
  "collect [] = Inr []"
| "collect (Inl e # rs) = Inl e"
| "collect (Inr x # rs) = (case collect rs of Inl e \<Rightarrow> Inl e | Inr xs \<Rightarrow> Inr (x # xs))"

section \<open>The regular expressions the filter builds\<close>

text \<open>
  The filter compiles \<open>re.escape(svc)\<close> with \<open>re.IGNORECASE\<close> and calls
  \<open>search\<close>. The three library functions are modelled on the part of the pattern
  language that decides what an escaped token means: ordinary characters, a backslash
  before a character, the dot, and the postfix repeats \<open>*\<close>, \<open>+\<close>, \<open>?\<close>. Every
  other construct (classes, groups, anchors, alternation, counted repeats, the
  backslash sequences on letters and digits) makes \<open>re_compile\<close> return \<open>None\<close>,
  which also stands for the patterns Python rejects.
\<close>

text \<open>
  \<open>re.escape\<close>: a backslash is put before each character of
  \<open>()[]{}?*+-|^$\.&~#\<close>, the space, TAB, LF, CR, VT and FF; every other
  character is copied.
\<close>

definition special_chars :: string where
  "special_chars =
     ''()[]{}?*+-|^$'' @ [backslash] @ ''.&~# '' @ [CHR 0x09, CHR 0x0A, CHR 0x0D, CHR 0x0B, CHR 0x0C]"

definition re_escape :: "string \<Rightarrow> string" where
  "re_escape s = concat (map (\<lambda>c. if c \<in> set special_chars then [backslash, c] else [c]) s)"

datatype atom = LITERAL char | ANY

datatype node = One atom | Repeat nat "nat option" atom

type_synonym pattern = "node list"

datatype token = Atom atom | Quantifier nat "nat option"

definition ascii_alnum :: "char \<Rightarrow> bool" where
  "ascii_alnum c =
     (let n = code_point c
      in (48 \<le> n \<and> n \<le> 57) \<or> (65 \<le> n \<and> n \<le> 90) \<or> (97 \<le> n \<and> n \<le> 122))"

text \<open>The characters with a meaning of their own that the model does not cover.\<close>

definition unmodelled_chars :: string where
  "unmodelled_chars = ''[{()^$|''"

text \<open>First pass of the parser: characters to tokens.\<close>

fun tokenize :: "string \<Rightarrow> token list option" where
  "tokenize [] = Some []"
| "tokenize (c # cs) =
     (if c = backslash then
        (case cs of
           [] \<Rightarrow> None
         | d # ds \<Rightarrow>
             if ascii_alnum d then None
             else map_option (\<lambda>ts. Atom (LITERAL d) # ts) (tokenize ds))
      else if c = CHR ''.'' then map_option (\<lambda>ts. Atom ANY # ts) (tokenize cs)
      else if c = CHR ''*'' then map_option (\<lambda>ts. Quantifier 0 None # ts) (tokenize cs)
      else if c = CHR ''+'' then map_option (\<lambda>ts. Quantifier 1 None # ts) (tokenize cs)
      else if c = CHR ''?'' then map_option (\<lambda>ts. Quantifier 0 (Some 1) # ts) (tokenize cs)
      else if c \<in> set unmodelled_chars then None
      else map_option (\<lambda>ts. Atom (LITERAL c) # ts) (tokenize cs))"

text \<open>
  Second pass: a repeat binds to the atom before it. A repeat with nothing before it is
  an error in Python; a repeat after a repeat is either an error or a lazy or
  possessive repeat, which the model leaves out.
\<close>

fun attach :: "token list \<Rightarrow> pattern option" where
  "attach [] = Some []"
| "attach (Quantifier lo hi # ts) = None"
| "attach (Atom a # Quantifier lo hi # Quantifier lo' hi' # ts) = None"
| "attach (Atom a # Quantifier lo hi # ts) = map_option (\<lambda>ns. Repeat lo hi a # ns) (attach ts)"
| "attach (Atom a # ts) = map_option (\<lambda>ns. One a # ns) (attach ts)"

text \<open>\<open>re.compile(pattern, re.IGNORECASE)\<close>.\<close>

definition re_compile :: "string \<Rightarrow> pattern option" where
  "re_compile p = (case tokenize p of None \<Rightarrow> None | Some ts \<Rightarrow> attach ts)"

text \<open>
  The lower-case mapping of the engine on one character: the ASCII capitals and the
  Latin-1 capitals (all of \<open>0xC0 .. 0xDE\<close> but the multiplication sign) move up by 32.
\<close>

definition unicode_tolower :: "char \<Rightarrow> char" where
  "unicode_tolower c =
     (let n = code_point c
      in if (65 \<le> n \<and> n \<le> 90) \<or> (192 \<le> n \<and> n \<le> 222 \<and> n \<noteq> 215)
         then char_of (n + 32) else c)"

text \<open>
  One character against one atom, ignoring case: a literal matches the characters
  with its lower-case form; the dot matches everything but a line feed.
\<close>

fun atom_matches :: "atom \<Rightarrow> char \<Rightarrow> bool" where
  "atom_matches (LITERAL l) c = (unicode_tolower c = unicode_tolower l)"
| "atom_matches ANY c = (c \<noteq> newline)"

text \<open>Does the pattern match at the start of the text?\<close>

fun match_here :: "pattern \<Rightarrow> string \<Rightarrow> bool" where
  "match_here [] s = True"
| "match_here (One a # ns) s =
     (case s of [] \<Rightarrow> False | c # cs \<Rightarrow> atom_matches a c \<and> match_here ns cs)"
| "match_here (Repeat lo hi a # ns) s =
     list_ex (\<lambda>k. lo \<le> k \<and> (case hi of None \<Rightarrow> True | Some h \<Rightarrow> k \<le> h)
                   \<and> list_all (atom_matches a) (take k s) \<and> match_here ns (drop k s))
             [0..<Suc (length s)]"

text \<open>\<open>p.search(line)\<close>, as the truth value of its result: a match at some position.\<close>

definition re_search :: "pattern \<Rightarrow> string \<Rightarrow> bool" where
  "re_search p s = list_ex (\<lambda>i. match_here p (drop i s)) [0..<Suc (length s)]"

section \<open>The line filter\<close>

text \<open>
  \<^verbatim>\<open>patterns = [re.compile(re.escape(svc), re.IGNORECASE) for svc in target_services]\<close>
\<close>

definition patterns_of :: "string list \<Rightarrow> py_error + pattern list" where
  "patterns_of target_services =
     collect (map (\<lambda>svc. case re_compile (re_escape svc) of
                              None \<Rightarrow> Inl RegexError | Some p \<Rightarrow> Inr p)
                  target_services)"

text \<open>
  \<^verbatim>\<open>
  hit_idxs = []
  for i, line in enumerate(lines):
      if any(p.search(line) for p in patterns):
          hit_idxs.append(i)
  \<close>
\<close>

definition hit_idxs_of :: "pattern list \<Rightarrow> string list \<Rightarrow> int list" where
  "hit_idxs_of patterns lines =
     map (\<lambda>(i, line). int i)
         (filter (\<lambda>(i, line). list_ex (\<lambda>p. re_search p line) patterns) (enumerate 0 lines))"

text \<open>
  \<^verbatim>\<open>
  keep = set()
  for i in hit_idxs:
      start = max(0, i - context)
      end = min(len(lines) - 1, i + context)
      for j in range(start, end + 1):
          keep.add(j)
  \<close>
  \<open>range(start, end + 1)\<close> is the interval \<open>[start..end]\<close>.
\<close>

definition keep_of :: "'a list \<Rightarrow> int \<Rightarrow> int list \<Rightarrow> int set" where
  "keep_of lines context hit_idxs =
     fold (\<lambda>i keep.
             let start = max 0 (i - context);
                 end = min (int (length lines) - 1) (i + context)
             in fold insert [start..end] keep)
          hit_idxs {}"

text \<open>
  \<^verbatim>\<open>
  def filter_lines_with_context(lines, target_services, context, max_lines):
      if not target_services:
          return [], 0
      patterns = ...
      hit_idxs = ...
      keep = ...
      kept_sorted = sorted(keep)
      filtered = [lines[i].rstrip("\n") for i in kept_sorted]
      if max_lines and len(filtered) > max_lines:
          filtered = filtered[:max_lines]
      return filtered, len(hit_idxs)
  \<close>
\<close>

definition filter_lines_with_context ::
  "string list \<Rightarrow> string list \<Rightarrow> int \<Rightarrow> int \<Rightarrow> py_error + (string list \<times> int)" where
  "filter_lines_with_context lines target_services context max_lines =
     (if target_services = [] then Inr ([], 0)
      else
        case patterns_of target_services of
          Inl e \<Rightarrow> Inl e
        | Inr patterns \<Rightarrow>
            let hit_idxs = hit_idxs_of patterns lines;
                keep = keep_of lines context hit_idxs;
                kept_sorted = sorted_list_of_set keep
            in case collect (map (\<lambda>i. map_sum id (rstrip_chars [newline]) (getitem lines i))
                                 kept_sorted) of
                 Inl e \<Rightarrow> Inl e
               | Inr filtered \<Rightarrow>
                   Inr (if max_lines \<noteq> 0 \<and> int (length filtered) > max_lines
                        then py_slice_to filtered max_lines else filtered,
                        int (length hit_idxs)))"

section \<open>Prompts\<close>

text \<open>\<open>str(n)\<close> for an integer: decimal digits, with a minus sign when negative.\<close>

definition digit_char :: "nat \<Rightarrow> char" where
  "digit_char d = char_of (48 + d)"

function str_nat :: "nat \<Rightarrow> string" where
  "str_nat n = (if n < 10 then [digit_char n] else str_nat (n div 10) @ [digit_char (n mod 10)])"
  by pat_completeness auto
termination
  by (relation "measure id") auto

declare str_nat.simps [simp del]

definition str_int :: "int \<Rightarrow> string" where
  "str_int i = (if i < 0 then CHR ''-'' # str_nat (nat (- i)) else str_nat (nat i))"

text \<open>
  \<^verbatim>\<open>
  joined = "\n\n---\n\n".join(
      f"Chunk {i+1} analysis:\n{chunk_outputs[i]}" for i in range(len(chunk_outputs))
  )
  \<close>
\<close>

definition separator :: string where
  "separator = [newline, newline] @ ''---'' @ [newline, newline]"

definition chunk_block :: "int \<Rightarrow> string \<Rightarrow> string" where
  "chunk_block i out = ''Chunk '' @ str_int (i + 1) @ '' analysis:'' @ [newline] @ out"

definition joined :: "string list \<Rightarrow> string" where
  "joined chunk_outputs =
     str_join separator
       (map (\<lambda>i. chunk_block (int i) (chunk_outputs ! i)) [0..<length chunk_outputs])"

text \<open>
  \<open>SYNTHESIS_PROMPT.format(target_services=target_services, chunk_analyses=joined)\<close>.
  The template has two fields and no other brace, so the result is its three pieces of
  fixed text around the two values. The first value is \<open>str(target_services)\<close>, the
  display form of a list of strings, which is taken as given.
\<close>

definition synthesis_head :: string where
  "synthesis_head =
     ''You are consolidating multiple chunk-level analyses of the same incident.'' @ [newline] @
     ''Combine them into ONE coherent incident report.'' @ [newline] @
     [newline] @
     ''Requirements:'' @ [newline] @
     ''- Merge duplicated information.'' @ [newline] @
     ''- Resolve ordering into a single timeline per service when possible.'' @ [newline] @
     ''- Keep evidence-based statements.'' @ [newline] @
     ''- Clearly label hypotheses.'' @ [newline] @
     ''- Produce a Jira-ready final summary.'' @ [newline] @
     [newline] @
     ''TARGET_SERVICES = ''"

definition synthesis_middle :: string where
  "synthesis_middle = [newline, newline] @ ''CHUNK ANALYSES:'' @ [newline]"

definition synthesis_tail :: string where
  "synthesis_tail = [newline]"

definition synthesis_prompt :: "string \<Rightarrow> string list \<Rightarrow> string" where
  "synthesis_prompt target_services_str chunk_outputs =
     synthesis_head @ target_services_str @ synthesis_middle @ joined chunk_outputs @ synthesis_tail"

section \<open>The analysis run\<close>

text \<open>
  What a run does that an operator or the analysis service can observe, in order:
  the messages of \<open>st.error\<close> and \<open>st.warning\<close>, the chunking of the filtered
  text, and each request sent to the service.
\<close>

datatype event =
    StError string
  | StWarning string
  | Chunked "string list"
  | ServiceCall string

text \<open>How the script ends: \<open>st.stop()\<close>, an uncaught exception, or the report.\<close>

datatype outcome =
    Stopped
  | Raised py_error
  | Report string "string list"

text \<open>
  The analysis service is outside the program. Its answer to the \<open>k\<close>-th request of a
  run is \<open>service k prompt\<close>: an exception, or the \<open>output_text\<close> of the response,
  which may be absent.
  \<^verbatim>\<open>
  def call_openai_responses(client, model, temperature, prompt):
      resp = client.responses.create(model=model, input=prompt, temperature=temperature)
      return resp.output_text or ""
  \<close>
\<close>

type_synonym service = "nat \<Rightarrow> string \<Rightarrow> py_error + string option"

definition call_openai_responses :: "service \<Rightarrow> nat \<Rightarrow> string \<Rightarrow> py_error + string" where
  "call_openai_responses service k prompt =
     (case service k prompt of
        Inl e \<Rightarrow> Inl e
      | Inr None \<Rightarrow> Inr []
      | Inr (Some t) \<Rightarrow> Inr t)"

text \<open>
  Pass 1. \<open>render chunk\<close> stands for
  \<open>prompt_template.format(target_services=target_services, log_text=chunk)\<close> on the
  operator's template, which raises on a template it cannot fill.
  \<^verbatim>\<open>
  for idx, chunk in enumerate(chunks, start=1):
      prompt = prompt_template.format(target_services=target_services, log_text=chunk)
      out = call_openai_responses(client, cfg.model, cfg.temperature, prompt)
      chunk_outputs.append(out.strip())
  \<close>
  The state of the loop is the events so far and \<open>chunk_outputs\<close>; the number of
  requests sent so far is the number of \<open>ServiceCall\<close> events.
\<close>

definition calls_in :: "event list \<Rightarrow> string list" where
  "calls_in evs = concat (map (\<lambda>e. case e of ServiceCall p \<Rightarrow> [p] | _ \<Rightarrow> []) evs)"

fun pass1 ::
  "service \<Rightarrow> (string \<Rightarrow> py_error + string) \<Rightarrow> string list \<Rightarrow> event list \<Rightarrow> string list
   \<Rightarrow> event list \<times> (py_error + string list)" where
  "pass1 service render [] evs chunk_outputs = (evs, Inr chunk_outputs)"
| "pass1 service render (chunk # chunks) evs chunk_outputs =
     (case render chunk of
        Inl e \<Rightarrow> (evs, Inl e)
      | Inr prompt \<Rightarrow>
          (case call_openai_responses service (length (calls_in evs)) prompt of
             Inl e \<Rightarrow> (evs @ [ServiceCall prompt], Inl e)
           | Inr out \<Rightarrow>
               pass1 service render chunks (evs @ [ServiceCall prompt])
                     (chunk_outputs @ [strip out])))"

text \<open>
  The script from the point where the filtered text is built (the operator has pressed
  Analyze):
  \<^verbatim>\<open>
  filtered_text = "\n".join(filtered_lines).strip()
  if not filtered_text:
      st.warning("No relevant lines were found for the selected TARGET_SERVICES.")
      st.stop()
  chunks = chunk_text_by_chars(filtered_text, int(chunk_size))
  chunk_outputs = []
  ... Pass 1 ...
  joined = ...
  synth_prompt = SYNTHESIS_PROMPT.format(target_services=target_services, chunk_analyses=joined)
  final_report = call_openai_responses(client, cfg.model, cfg.temperature, synth_prompt).strip()
  \<close>
\<close>

definition no_relevant_lines :: string where
  "no_relevant_lines = ''No relevant lines were found for the selected TARGET_SERVICES.''"

definition analyze_filtered ::
  "service \<Rightarrow> (string \<Rightarrow> py_error + string) \<Rightarrow> string \<Rightarrow> string list \<Rightarrow> int
   \<Rightarrow> event list \<times> outcome" where
  "analyze_filtered service render target_services_str filtered_lines chunk_size =
     (let filtered_text = strip (str_join [newline] filtered_lines)
      in if filtered_text = [] then ([StWarning no_relevant_lines], Stopped)
         else
           let chunks = chunk_text_by_chars filtered_text chunk_size
           in case pass1 service render chunks [Chunked chunks] [] of
                (evs, Inl e) \<Rightarrow> (evs, Raised e)
              | (evs, Inr chunk_outputs) \<Rightarrow>
                  let synth_prompt = synthesis_prompt target_services_str chunk_outputs
                  in case call_openai_responses service (length (calls_in evs)) synth_prompt of
                       Inl e \<Rightarrow> (evs @ [ServiceCall synth_prompt], Raised e)
                     | Inr out \<Rightarrow>
                         (evs @ [ServiceCall synth_prompt], Report (strip out) chunk_outputs))"

text \<open>
  The script from the call of the filter on, with the three gates before the analysis:
  \<^verbatim>\<open>
  filtered_lines, hits = filter_lines_with_context(lines=lines, target_services=target_services,
                                                   context=context, max_lines=int(max_filtered_lines))
  if not api_key:
      st.error("No OpenAI API key found. ...")
      st.stop()
  if not target_services:
      st.error("Please provide at least one target service (comma-separated).")
      st.stop()
  analyze = st.button("Analyze", type="primary")
  if not analyze:
      st.stop()
  \<close>
\<close>

definition no_api_key :: string where
  "no_api_key = ''No OpenAI API key found. Set OPENAI_API_KEY in the environment or provide an override key in the sidebar.''"

definition no_target_service :: string where
  "no_target_service = ''Please provide at least one target service (comma-separated).''"

record config =
  cfg_api_key :: string
  cfg_target_services :: "string list"
  cfg_target_services_str :: string
  cfg_context :: int
  cfg_max_filtered_lines :: int
  cfg_chunk_size :: int
  cfg_analyze :: bool

definition run_script ::
  "service \<Rightarrow> (string \<Rightarrow> py_error + string) \<Rightarrow> config \<Rightarrow> string list \<Rightarrow> event list \<times> outcome" where
  "run_script service render cfg lines =
     (case filter_lines_with_context lines (cfg_target_services cfg) (cfg_context cfg)
             (cfg_max_filtered_lines cfg) of
        Inl e \<Rightarrow> ([], Raised e)
      | Inr (filtered_lines, hits) \<Rightarrow>
          if cfg_api_key cfg = [] then ([StError no_api_key], Stopped)
          else if cfg_target_services cfg = [] then ([StError no_target_service], Stopped)
          else if \<not> cfg_analyze cfg then ([], Stopped)
          else analyze_filtered service render (cfg_target_services_str cfg) filtered_lines
                 (cfg_chunk_size cfg))"

section \<open>Notions used in the statements\<close>

text \<open>
  The values of the local variables \<open>hit_idxs\<close> and \<open>keep\<close> in a call of
  \<open>filter_lines_with_context\<close> on the given lines, tokens and context.
\<close>

definition hit_idxs_in :: "string list \<Rightarrow> string list \<Rightarrow> int list" where
  "hit_idxs_in lines tokens =
     (case patterns_of tokens of Inl e \<Rightarrow> [] | Inr patterns \<Rightarrow> hit_idxs_of patterns lines)"

definition keep_in :: "string list \<Rightarrow> string list \<Rightarrow> int \<Rightarrow> int set" where
  "keep_in lines tokens context = keep_of lines context (hit_idxs_in lines tokens)"

text \<open>\<open>lines[i].rstrip("\n")\<close> for an index in range.\<close>

definition line_at :: "string list \<Rightarrow> int \<Rightarrow> string" where
  "line_at lines i = rstrip_chars [newline] (lines ! nat i)"

text \<open>
  The matcher as the specification words it: a token occurs in a line as a literal
  substring, ignoring case, when the token, character by character in lower case, is a
  run of consecutive characters of the line in lower case.
\<close>

definition occurs_ignoring_case :: "string \<Rightarrow> string \<Rightarrow> bool" where
  "occurs_ignoring_case tok line =
     sublist (map unicode_tolower tok) (map unicode_tolower line)"

text \<open>The pattern that matches a text character by character.\<close>

definition literal_pattern :: "string \<Rightarrow> pattern" where
  "literal_pattern s = map (\<lambda>c. One (LITERAL c)) s"

definition line_hits :: "string list \<Rightarrow> string \<Rightarrow> bool" where
  "line_hits tokens line = list_ex (\<lambda>tok. occurs_ignoring_case tok line) tokens"

definition hit_indices :: "string list \<Rightarrow> string list \<Rightarrow> nat list" where
  "hit_indices lines tokens = filter (\<lambda>i. line_hits tokens (lines ! i)) [0..<length lines]"

text \<open>The clamped window of a hit \<open>h\<close> in a file of \<open>n\<close> lines.\<close>

definition window :: "int \<Rightarrow> int \<Rightarrow> int \<Rightarrow> int set" where
  "window n radius h = {max 0 (h - radius) .. min (n - 1) (h + radius)}"

definition keep_indices :: "string list \<Rightarrow> string list \<Rightarrow> int \<Rightarrow> int set" where
  "keep_indices lines tokens radius =
     (\<Union>h \<in> set (hit_indices lines tokens). window (int (length lines)) radius (int h))"

text \<open>The safety cap at the end of the filter, on the list it is applied to.\<close>

definition truncated :: "int \<Rightarrow> 'a list \<Rightarrow> 'a list" where
  "truncated max_lines xs =
     (if max_lines \<noteq> 0 \<and> int (length xs) > max_lines then py_slice_to xs max_lines else xs)"

section \<open>Properties of the chunker\<close>

lemma py_range_Cons:
  "0 < step \<Longrightarrow> start < stop \<Longrightarrow>
   py_range start stop step = start # py_range (start + step) stop step"
  by (subst py_range.simps) simp

lemma py_range_Nil: "\<not> (0 < step \<and> start < stop) \<Longrightarrow> py_range start stop step = []"
  by (subst py_range.simps) simp

lemma py_slice_step:
  "0 \<le> i \<Longrightarrow> 0 < k \<Longrightarrow> py_slice xs i (i + k) = take (nat k) (drop (nat i) xs)"
  by (auto simp: py_slice_def slice_bound_def Let_def min_def)

lemma concat_chunks_from:
  "0 \<le> i \<Longrightarrow> 0 < k \<Longrightarrow>
   concat (map (\<lambda>j. py_slice xs j (j + k)) (py_range i (int (length xs)) k)) = drop (nat i) xs"
proof (induction i "int (length xs)" k rule: py_range.induct)
  case (1 start step)
  show ?case
  proof (cases "start < int (length xs)")
    case True
    have d: "drop (nat (start + step)) xs = drop (nat step) (drop (nat start) xs)"
      using 1(2,3) by (simp add: nat_add_distrib add.commute)
    have ih: "concat (map (\<lambda>j. py_slice xs j (j + step))
                (py_range (start + step) (int (length xs)) step)) = drop (nat (start + step)) xs"
      using 1(1) 1(2,3) True by simp
    have "concat (map (\<lambda>j. py_slice xs j (j + step)) (py_range start (int (length xs)) step))
        = py_slice xs start (start + step)
          @ concat (map (\<lambda>j. py_slice xs j (j + step)) (py_range (start + step) (int (length xs)) step))"
      unfolding py_range_Cons[OF 1(3) True] by simp
    also have "\<dots> = take (nat step) (drop (nat start) xs) @ drop (nat step) (drop (nat start) xs)"
      unfolding ih d py_slice_step[OF 1(2,3)] ..
    also have "\<dots> = drop (nat start) xs"
      by (rule append_take_drop_id)
    finally show ?thesis .
  next
    case False
    with 1 show ?thesis
      by (simp add: py_range_Nil)
  qed
qed

lemma butlast_chunks_from:
  "0 \<le> i \<Longrightarrow> 0 < k \<Longrightarrow>
   \<forall>c \<in> set (butlast (map (\<lambda>j. py_slice xs j (j + k)) (py_range i (int (length xs)) k))).
     int (length c) = k"
proof (induction i "int (length xs)" k rule: py_range.induct)
  case (1 start step)
  show ?case
  proof (cases "start < int (length xs)")
    case True
    note lt = True
    have unf: "py_range start (int (length xs)) step
          = start # py_range (start + step) (int (length xs)) step"
      using 1(3) lt by (rule py_range_Cons)
    have ih: "\<forall>c \<in> set (butlast (map (\<lambda>j. py_slice xs j (j + step))
                (py_range (start + step) (int (length xs)) step))). int (length c) = step"
      using 1(1) 1(2,3) lt by simp
    show ?thesis
    proof (cases "start + step < int (length xs)")
      case True
      have "int (length (py_slice xs start (start + step))) = step"
        using 1(2,3) True by (simp add: py_slice_step)
      with ih show ?thesis
        unfolding unf by simp
    next
      case False
      then have "py_range (start + step) (int (length xs)) step = []"
        by (simp add: py_range_Nil)
      then show ?thesis
        unfolding unf by simp
    qed
  next
    case False
    with 1 show ?thesis
      by (simp add: py_range_Nil)
  qed
qed

lemma chunk_text_by_chars_pos:
  assumes "strip T \<noteq> []" and "0 < chunk_size"
  shows "chunk_text_by_chars T chunk_size
       = map (\<lambda>j. py_slice (strip T) j (j + chunk_size))
             (py_range 0 (int (length (strip T))) chunk_size)"
  using assms unfolding chunk_text_by_chars_def Let_def by simp

text \<open>
  Claim C1. For a text whose trimmed form is not empty and a positive \<open>chunk_size\<close>,
  the chunks of \<open>chunk_text_by_chars\<close> concatenate to the trimmed text, character for
  character, and every chunk but the last has exactly \<open>chunk_size\<close> characters.
\<close>

theorem chunk_round_trip:
  assumes "strip T \<noteq> []" and "0 < chunk_size"
  shows "concat (chunk_text_by_chars T chunk_size) = strip T
       \<and> (\<forall>c \<in> set (butlast (chunk_text_by_chars T chunk_size)). int (length c) = chunk_size)"
proof
  show "concat (chunk_text_by_chars T chunk_size) = strip T"
    unfolding chunk_text_by_chars_pos[OF assms]
    using concat_chunks_from[of 0 chunk_size "strip T"] assms(2) by simp
  show "\<forall>c \<in> set (butlast (chunk_text_by_chars T chunk_size)). int (length c) = chunk_size"
    unfolding chunk_text_by_chars_pos[OF assms]
    using butlast_chunks_from[of 0 chunk_size "strip T"] assms(2) by blast
qed

theorem chunk_round_trip_witness:
  "strip ''  abcdefgh '' \<noteq> [] \<and> (0::int) < 3
   \<and> concat (chunk_text_by_chars ''  abcdefgh '' 3) = strip ''  abcdefgh ''
   \<and> list_all (\<lambda>c. int (length c) = 3) (butlast (chunk_text_by_chars ''  abcdefgh '' 3))"
proof -
  have a: "strip ''  abcdefgh '' \<noteq> []" by code_simp
  have b: "(0::int) < 3" by simp
  show ?thesis using a b chunk_round_trip[OF a b] by (simp add: list_all_iff)
qed

text \<open>
  Claim C6. With \<open>chunk_size = 0\<close> (and with any non-positive \<open>chunk_size\<close>) a text
  whose trimmed form is not empty gives the single chunk holding the whole trimmed text,
  which is the text itself when it is already trimmed; and a text that trims to empty
  gives no chunk, for every \<open>chunk_size\<close>.
\<close>

theorem chunk_disable:
  "(strip T \<noteq> [] \<longrightarrow> chunk_text_by_chars T 0 = [strip T])
   \<and> (T \<noteq> [] \<and> strip T = T \<longrightarrow> chunk_text_by_chars T 0 = [T])
   \<and> (strip T \<noteq> [] \<and> chunk_size \<le> 0 \<longrightarrow> chunk_text_by_chars T chunk_size = [strip T])
   \<and> (strip T = [] \<longrightarrow> chunk_text_by_chars T k = [])
   \<and> chunk_text_by_chars [] k = []"
  by (simp add: chunk_text_by_chars_def Let_def strip_def lstrip_def rstrip_def)

theorem chunk_disable_witness:
  "strip ''abc def'' = ''abc def'' \<and> strip '' abc  '' = ''abc'' \<and> strip ''   '' = []
   \<and> chunk_text_by_chars ''abc def'' 0 = [''abc def'']
   \<and> chunk_text_by_chars '' abc  '' 0 = [''abc'']
   \<and> chunk_text_by_chars '' abc  '' (- 4) = [''abc'']
   \<and> chunk_text_by_chars ''   '' 5 = []
   \<and> chunk_text_by_chars [] 7 = []"
proof -
  have a: "strip ''abc def'' = ''abc def''" by code_simp
  have b: "strip '' abc  '' = ''abc''" by code_simp
  have c: "strip ''   '' = []" by code_simp
  show ?thesis
    using chunk_disable[of "''abc def''" 0 0] chunk_disable[of "'' abc  ''" "- 4" 0]
      chunk_disable[of "''   ''" 0 5] chunk_disable[of "[]" 0 7] a b c
    by simp
qed

section \<open>What the filter computes\<close>

lemma special_not_alnum: "c \<in> set special_chars \<Longrightarrow> \<not> ascii_alnum c"
  by (auto simp: special_chars_def ascii_alnum_def code_point_def backslash_def)

lemma not_special_plain:
  "c \<notin> set special_chars \<Longrightarrow>
   c \<noteq> backslash \<and> c \<noteq> CHR ''.'' \<and> c \<noteq> CHR ''*'' \<and> c \<noteq> CHR ''+'' \<and> c \<noteq> CHR ''?''
   \<and> c \<notin> set unmodelled_chars"
  by (auto simp: special_chars_def unmodelled_chars_def backslash_def)

lemma tokenize_escape: "tokenize (re_escape s) = Some (map (\<lambda>c. Atom (LITERAL c)) s)"
proof (induction s)
  case Nil
  show ?case by (simp add: re_escape_def)
next
  case (Cons c s)
  have ih: "tokenize (re_escape s) = Some (map (\<lambda>c. Atom (LITERAL c)) s)" by (rule Cons.IH)
  show ?case
  proof (cases "c \<in> set special_chars")
    case True
    then have "re_escape (c # s) = backslash # c # re_escape s"
      by (simp add: re_escape_def)
    with special_not_alnum[OF True] ih show ?thesis by simp
  next
    case False
    then have "re_escape (c # s) = c # re_escape s"
      by (simp add: re_escape_def)
    with not_special_plain[OF False] ih show ?thesis by simp
  qed
qed

lemma attach_literals:
  "attach (map (\<lambda>c. Atom (LITERAL c)) s) = Some (literal_pattern s)"
proof (induction s)
  case Nil
  show ?case by (simp add: literal_pattern_def)
next
  case (Cons c s)
  then show ?case
    by (cases s) (simp_all add: literal_pattern_def)
qed

lemma re_compile_escape: "re_compile (re_escape s) = Some (literal_pattern s)"
  by (simp add: re_compile_def tokenize_escape attach_literals)

lemma match_here_literal:
  "match_here (literal_pattern t) s
   \<longleftrightarrow> prefix (map unicode_tolower t) (map unicode_tolower s)"
proof (induction t arbitrary: s)
  case Nil
  show ?case by (simp add: literal_pattern_def)
next
  case (Cons c t)
  from Cons.IH show ?case
    by (cases s) (auto simp: literal_pattern_def)
qed

lemma sublist_iff_prefix_drop:
  "sublist xs ys \<longleftrightarrow> (\<exists>i \<le> length ys. prefix xs (drop i ys))"
proof
  assume "sublist xs ys"
  then obtain ps ss where ys: "ys = ps @ xs @ ss" by (auto simp: sublist_def)
  then have "length ps \<le> length ys" "prefix xs (drop (length ps) ys)" by simp_all
  then show "\<exists>i \<le> length ys. prefix xs (drop i ys)" by blast
next
  assume "\<exists>i \<le> length ys. prefix xs (drop i ys)"
  then obtain i zs where "drop i ys = xs @ zs" by (auto simp: prefix_def)
  then have "ys = take i ys @ xs @ zs" by (metis append_take_drop_id)
  then show "sublist xs ys" unfolding sublist_def by blast
qed

lemma re_search_literal:
  "re_search (literal_pattern t) s \<longleftrightarrow> occurs_ignoring_case t s"
proof -
  have "re_search (literal_pattern t) s
        \<longleftrightarrow> (\<exists>i \<le> length s. prefix (map unicode_tolower t) (map unicode_tolower (drop i s)))"
    unfolding re_search_def list_ex_iff match_here_literal
    by (metis atLeastLessThan_iff less_Suc_eq_le set_upt zero_le)
  also have "\<dots> \<longleftrightarrow> occurs_ignoring_case t s"
    unfolding occurs_ignoring_case_def sublist_iff_prefix_drop
    by (simp add: drop_map)
  finally show ?thesis .
qed

lemma collect_all_Inr: "collect (map (\<lambda>x. Inr (f x)) xs) = Inr (map f xs)"
  by (induction xs) simp_all

lemma patterns_of_literal: "patterns_of tokens = Inr (map literal_pattern tokens)"
  unfolding patterns_of_def by (simp add: re_compile_escape collect_all_Inr)

lemma filter_enumerate:
  "map (\<lambda>(i, x). int i) (filter (\<lambda>(i, x). P x) (enumerate 0 xs))
   = map int (filter (\<lambda>i. P (xs ! i)) [0..<length xs])"
proof (induction xs rule: rev_induct)
  case Nil
  show ?case by simp
next
  case (snoc x xs)
  have "filter (\<lambda>i. P ((xs @ [x]) ! i)) [0..<length xs] = filter (\<lambda>i. P (xs ! i)) [0..<length xs]"
    by (rule filter_cong) (simp_all add: nth_append)
  with snoc show ?case
    by (simp add: enumerate_append_eq)
qed

lemma hit_idxs_of_literal:
  "hit_idxs_of (map literal_pattern tokens) lines = map int (hit_indices lines tokens)"
  unfolding hit_idxs_of_def hit_indices_def line_hits_def
  by (simp add: filter_enumerate list_ex_iff re_search_literal)

lemma fold_insert_set: "fold insert xs A = set xs \<union> A"
  by (induction xs arbitrary: A) auto

lemma keep_of_fold:
  "fold (\<lambda>i. fold insert [max 0 (i - c)..min (n - 1) (i + c)]) hs A
   = (\<Union>h \<in> set hs. window n c h) \<union> A"
  by (induction hs arbitrary: A) (auto simp: fold_insert_set window_def)

lemma keep_of_windows:
  "keep_of lines context hit_idxs = (\<Union>h \<in> set hit_idxs. window (int (length lines)) context h)"
  unfolding keep_of_def Let_def by (simp add: keep_of_fold)

lemma keep_of_hit_indices:
  "keep_of lines context (map int (hit_indices lines tokens)) = keep_indices lines tokens context"
  by (simp add: keep_of_windows keep_indices_def)

lemma window_in_range: "j \<in> window n r h \<Longrightarrow> 0 \<le> j \<and> j < n"
  by (auto simp: window_def)

lemma keep_indices_in_range:
  "j \<in> keep_indices lines tokens r \<Longrightarrow> 0 \<le> j \<and> j < int (length lines)"
  unfolding keep_indices_def using window_in_range by blast

lemma finite_keep_indices: "finite (keep_indices lines tokens r)"
  unfolding keep_indices_def window_def by simp

lemma getitem_in_range: "0 \<le> j \<Longrightarrow> j < int (length xs) \<Longrightarrow> getitem xs j = Inr (xs ! nat j)"
  by (simp add: getitem_def)

lemma collect_getitem:
  assumes "\<forall>j \<in> set js. 0 \<le> j \<and> j < int (length xs)"
  shows "collect (map (\<lambda>i. map_sum id f (getitem xs i)) js) = Inr (map (\<lambda>i. f (xs ! nat i)) js)"
  using assms by (induction js) (simp_all add: getitem_in_range)

lemma filter_lines_with_context_eq:
  assumes "tokens \<noteq> []"
  shows "filter_lines_with_context lines tokens context max_lines
         = Inr (truncated max_lines
                  (map (line_at lines) (sorted_list_of_set (keep_indices lines tokens context))),
                int (length (hit_indices lines tokens)))"
proof -
  let ?K = "keep_indices lines tokens context"
  have "\<forall>j \<in> set (sorted_list_of_set ?K). 0 \<le> j \<and> j < int (length lines)"
    using keep_indices_in_range finite_keep_indices by simp
  then have c: "collect (map (\<lambda>i. map_sum id (rstrip_chars [newline]) (getitem lines i))
                   (sorted_list_of_set ?K))
        = Inr (map (line_at lines) (sorted_list_of_set ?K))"
    unfolding line_at_def by (rule collect_getitem)
  show ?thesis
    unfolding filter_lines_with_context_def patterns_of_literal
    using assms
    by (simp add: hit_idxs_of_literal keep_of_hit_indices c Let_def truncated_def)
qed

section \<open>Properties of the filter\<close>

lemma hit_idxs_in_eq: "hit_idxs_in lines tokens = map int (hit_indices lines tokens)"
  unfolding hit_idxs_in_def by (simp add: patterns_of_literal hit_idxs_of_literal)

lemma keep_in_eq: "keep_in lines tokens context = keep_indices lines tokens context"
  unfolding keep_in_def hit_idxs_in_eq by (rule keep_of_hit_indices)

lemma py_slice_to_take: "py_slice_to xs m = take (nat (slice_bound (int (length xs)) m)) xs"
  by (simp add: py_slice_to_def py_slice_def slice_bound_def Let_def)

lemma truncated_is_take: "\<exists>k. truncated m xs = take k xs"
proof (cases "m \<noteq> 0 \<and> int (length xs) > m")
  case True
  then have "truncated m xs = take (nat (slice_bound (int (length xs)) m)) xs"
    by (simp add: truncated_def py_slice_to_take)
  then show ?thesis by blast
next
  case False
  then have "truncated m xs = take (length xs) xs"
    by (auto simp: truncated_def)
  then show ?thesis by blast
qed

lemma truncated_zero: "truncated 0 xs = xs"
  by (simp add: truncated_def)

lemma truncated_pos: "0 < m \<Longrightarrow> m < int (length xs) \<Longrightarrow> truncated m xs = take (nat m) xs"
  by (simp add: truncated_def py_slice_to_take slice_bound_def)

lemma filter_lines_with_context_all:
  "filter_lines_with_context lines tokens context max_lines
   = Inr (truncated max_lines
            (map (line_at lines) (sorted_list_of_set (keep_in lines tokens context))),
          int (length (hit_idxs_in lines tokens)))"
proof (cases "tokens = []")
  case True
  then have "hit_indices lines tokens = []"
    by (simp add: hit_indices_def line_hits_def)
  then have "keep_indices lines tokens context = {}"
    by (simp add: keep_indices_def)
  with True \<open>hit_indices lines tokens = []\<close> show ?thesis
    by (simp add: filter_lines_with_context_def keep_in_eq hit_idxs_in_eq truncated_def py_slice_to_take)
next
  case False
  then show ?thesis
    by (simp add: filter_lines_with_context_eq keep_in_eq hit_idxs_in_eq)
qed

text \<open>
  Claim C4. With an empty token list the filter returns the empty sequence and the
  hit count 0, whatever the lines, the radius and the cap: no filtering is possible,
  and nothing is matched.
\<close>

theorem empty_tokens_no_filtering:
  "filter_lines_with_context lines [] radius max_output_lines = Inr ([], 0)"
  by (simp add: filter_lines_with_context_def)

theorem empty_tokens_no_filtering_witness:
  "filter_lines_with_context [''a'', ''svc b''] [] 3 1 = Inr ([], 0)"
  by (rule empty_tokens_no_filtering)

text \<open>
  Claim C2. The keep set built from the hit indices is the union of the clamped
  windows \<open>[max(0, h - radius), min(len(lines) - 1, h + radius)]\<close> of the hits \<open>h\<close>:
  an index is kept exactly when it lies in the window of some hit, and with no hit the
  keep set is empty for every radius. The filter applies this to its own hit indices.
\<close>

theorem keep_is_union_of_windows:
  "keep_of lines radius hit_idxs
     = (\<Union>h \<in> set hit_idxs. {max 0 (h - radius) .. min (int (length lines) - 1) (h + radius)})
   \<and> (j \<in> keep_of lines radius hit_idxs
        \<longleftrightarrow> (\<exists>h \<in> set hit_idxs. max 0 (h - radius) \<le> j \<and> j \<le> min (int (length lines) - 1) (h + radius)))
   \<and> keep_of lines radius [] = {}
   \<and> keep_in lines tokens radius = keep_of lines radius (hit_idxs_in lines tokens)"
  by (auto simp: keep_of_windows window_def keep_in_def)

theorem keep_is_union_of_windows_witness:
  "keep_of [''a'', ''b'', ''c'', ''d'', ''e'', ''f'', ''g''] 1 [0, 4] = {0, 1, 3, 4, 5}"
proof -
  have "keep_of [''a'', ''b'', ''c'', ''d'', ''e'', ''f'', ''g''] 1 [0, 4]
        = (\<Union>h \<in> set [0, 4]. {max 0 (h - 1) .. min (int (length [''a'', ''b'', ''c'', ''d'', ''e'', ''f'', ''g'']) - 1) (h + 1)})"
    using keep_is_union_of_windows[of "[''a'', ''b'', ''c'', ''d'', ''e'', ''f'', ''g'']" 1 "[0, 4]"]
    by blast
  also have "\<dots> = {0, 1, 3, 4, 5}"
    by code_simp
  finally show ?thesis .
qed

text \<open>
  Claim C10. With \<open>max_lines = 0\<close> the cap is skipped: the filter returns the line of
  every kept index, as many entries as the keep set has elements, so a non-empty keep
  set is not cut to zero entries.
\<close>

theorem zero_max_lines_is_unlimited:
  "filter_lines_with_context lines tokens context 0
     = Inr (map (line_at lines) (sorted_list_of_set (keep_in lines tokens context)),
            int (length (hit_idxs_in lines tokens)))
   \<and> length (map (line_at lines) (sorted_list_of_set (keep_in lines tokens context)))
     = card (keep_in lines tokens context)"
  by (simp add: filter_lines_with_context_all truncated_zero)

theorem zero_max_lines_is_unlimited_witness:
  "filter_lines_with_context [''a'', ''SVC1 start'', ''b''] [''svc1''] 1 0
     = Inr ([''a'', ''SVC1 start'', ''b''], 1)
   \<and> card (keep_in [''a'', ''SVC1 start'', ''b''] [''svc1''] 1) = 3"
proof -
  have k: "sorted_list_of_set (keep_in [''a'', ''SVC1 start'', ''b''] [''svc1''] 1) = [0, 1, 2]"
    by code_simp
  have h: "hit_idxs_in [''a'', ''SVC1 start'', ''b''] [''svc1''] = [1]"
    by code_simp
  have l: "map (line_at [''a'', ''SVC1 start'', ''b'']) [0, 1, 2] = [''a'', ''SVC1 start'', ''b'']"
    by code_simp
  show ?thesis
    using zero_max_lines_is_unlimited[of "[''a'', ''SVC1 start'', ''b'']" "[''svc1'']" 1]
    unfolding k h l by simp
qed

text \<open>
  Claim C5 as stated fails at \<open>max_lines = 0\<close>: one line is kept, which exceeds the
  cap of 0, and the filter returns that one line instead of no line.
\<close>

theorem truncation_at_zero_counterexample:
  "0 < int (card (keep_in [''a''] [''a''] 0))
   \<and> filter_lines_with_context [''a''] [''a''] 0 0 = Inr ([''a''], 1)"
  by code_simp

text \<open>
  Claim C5, amended. For a positive \<open>max_lines\<close> that the size of the keep set
  exceeds, the filter returns exactly \<open>max_lines\<close> entries, the first ones of the
  untruncated result in ascending order of kept index; and for every \<open>max_lines\<close>
  the hit count is the number of hit indices found before the expansion.
\<close>

theorem truncation_safeguard:
  "(0 < max_lines \<and> max_lines < int (card (keep_in lines tokens context))
     \<longrightarrow> filter_lines_with_context lines tokens context max_lines
         = Inr (take (nat max_lines)
                  (map (line_at lines) (sorted_list_of_set (keep_in lines tokens context))),
                int (length (hit_idxs_in lines tokens)))
       \<and> length (take (nat max_lines)
                  (map (line_at lines) (sorted_list_of_set (keep_in lines tokens context))))
         = nat max_lines)
   \<and> (\<exists>filtered. filter_lines_with_context lines tokens context max_lines
         = Inr (filtered, int (length (hit_idxs_in lines tokens))))"
  by (auto simp: filter_lines_with_context_all truncated_pos)

theorem truncation_safeguard_witness:
  "(0::int) < 2
   \<and> 2 < int (card (keep_in [''a'', ''SVC1 start'', ''b'', ''c'', ''SVC1 stop'', ''d''] [''SVC1''] 1))
   \<and> filter_lines_with_context [''a'', ''SVC1 start'', ''b'', ''c'', ''SVC1 stop'', ''d''] [''SVC1''] 1 2
       = Inr ([''a'', ''SVC1 start''], 2)"
proof -
  let ?L = "[''a'', ''SVC1 start'', ''b'', ''c'', ''SVC1 stop'', ''d'']"
  have k: "sorted_list_of_set (keep_in ?L [''SVC1''] 1) = [0, 1, 2, 3, 4, 5]"
    by code_simp
  have c: "2 < int (card (keep_in ?L [''SVC1''] 1))"
    by code_simp
  have h: "hit_idxs_in ?L [''SVC1''] = [1, 4]"
    by code_simp
  have l: "take (nat 2) (map (line_at ?L) [0, 1, 2, 3, 4, 5]) = [''a'', ''SVC1 start'']"
    by code_simp
  show ?thesis
    using truncation_safeguard[of 2 ?L "[''SVC1'']" 1] c
    unfolding k h l by simp
qed

section \<open>The filtered lines as a subsequence\<close>

lemma subseq_nth_filter:
  "subseq (map (\<lambda>i. xs ! i) (filter Q [0..<length xs])) xs"
proof (induction xs rule: rev_induct)
  case Nil
  show ?case by simp
next
  case (snoc x xs)
  have "map (\<lambda>i. (xs @ [x]) ! i) (filter Q [0..<length xs])
        = map (\<lambda>i. xs ! i) (filter Q [0..<length xs])"
    by (rule map_cong) (simp_all add: nth_append)
  then have eq: "map (\<lambda>i. (xs @ [x]) ! i) (filter Q [0..<length (xs @ [x])])
        = map (\<lambda>i. xs ! i) (filter Q [0..<length xs]) @ (if Q (length xs) then [x] else [])"
    by simp
  have "subseq (if Q (length xs) then [x] else []) [x]" by simp
  with snoc show ?case
    unfolding eq by (rule list_emb_append_mono)
qed

lemma strict_sorted_is_filter:
  assumes "sorted_wrt (<) (is :: nat list)" and "\<forall>i \<in> set is. i < n"
  shows "is = filter (\<lambda>i. i \<in> set is) [0..<n]"
proof (rule sorted_distinct_set_unique)
  show "sorted is" "distinct is" using assms(1) by (simp_all add: strict_sorted_iff)
  show "sorted (filter (\<lambda>i. i \<in> set is) [0..<n])" by (simp add: sorted_wrt_filter)
  show "distinct (filter (\<lambda>i. i \<in> set is) [0..<n])" by simp
  show "set is = set (filter (\<lambda>i. i \<in> set is) [0..<n])" using assms(2) by auto
qed

lemma subseq_map_nth:
  assumes "sorted_wrt (<) (is :: nat list)" and "\<forall>i \<in> set is. i < length xs"
  shows "subseq (map (\<lambda>i. f (xs ! i)) is) (map f xs)"
proof -
  have "subseq (map (\<lambda>i. xs ! i) is) xs"
    using subseq_nth_filter[of xs "\<lambda>i. i \<in> set is"] strict_sorted_is_filter[OF assms]
    by simp
  then have "subseq (map f (map (\<lambda>i. xs ! i) is)) (map f xs)"
    by (rule subseq_map)
  then show ?thesis by (simp add: comp_def)
qed

lemma kept_prefix_indices:
  fixes K :: "int set"
  assumes "finite K" and "\<forall>j \<in> K. 0 \<le> j \<and> j < n"
  shows "sorted_wrt (<) (map nat (take k (sorted_list_of_set K)))
       \<and> (\<forall>i \<in> set (map nat (take k (sorted_list_of_set K))). int i < n)"
proof
  have s: "sorted_wrt (<) (take k (sorted_list_of_set K))"
    by (rule sorted_wrt_take) simp
  have nn: "\<forall>j \<in> set (take k (sorted_list_of_set K)). 0 \<le> j \<and> j < n"
    using assms by (auto dest: in_set_takeD)
  show "sorted_wrt (<) (map nat (take k (sorted_list_of_set K)))"
    unfolding sorted_wrt_map
    by (rule sorted_wrt_mono_rel[OF _ s]) (use nn in auto)
  show "\<forall>i \<in> set (map nat (take k (sorted_list_of_set K))). int i < n"
    using nn by auto
qed

text \<open>
  Claim C3. For every input the filter returns the lines at a strictly increasing
  sequence of indices of the original list, each with its trailing line feeds removed:
  no line is reordered or repeated, and the result is a subsequence of the original
  lines (so stripped).
\<close>

theorem filtered_is_ordered_subsequence:
  "\<exists>idxs hit_count.
      filter_lines_with_context lines tokens context max_lines
        = Inr (map (\<lambda>i. rstrip_chars [newline] (lines ! i)) idxs, hit_count)
      \<and> sorted_wrt (<) idxs
      \<and> (\<forall>i \<in> set idxs. i < length lines)
      \<and> subseq (map (\<lambda>i. rstrip_chars [newline] (lines ! i)) idxs)
               (map (rstrip_chars [newline]) lines)"
proof -
  let ?K = "keep_in lines tokens context"
  let ?ks = "sorted_list_of_set ?K"
  obtain k where k: "truncated max_lines (map (line_at lines) ?ks) = take k (map (line_at lines) ?ks)"
    using truncated_is_take by blast
  let ?idxs = "map nat (take k ?ks)"
  have fin: "finite ?K" and rng: "\<forall>j \<in> ?K. 0 \<le> j \<and> j < int (length lines)"
    unfolding keep_in_eq using finite_keep_indices keep_indices_in_range by auto
  have p: "sorted_wrt (<) ?idxs" "\<forall>i \<in> set ?idxs. int i < int (length lines)"
    using kept_prefix_indices[OF fin rng, of k] by auto
  then have r: "\<forall>i \<in> set ?idxs. i < length lines" by simp
  have "filter_lines_with_context lines tokens context max_lines
        = Inr (map (\<lambda>i. rstrip_chars [newline] (lines ! i)) ?idxs,
               int (length (hit_idxs_in lines tokens)))"
    unfolding filter_lines_with_context_all k
    by (simp add: take_map comp_def line_at_def)
  moreover have "subseq (map (\<lambda>i. rstrip_chars [newline] (lines ! i)) ?idxs)
                        (map (rstrip_chars [newline]) lines)"
    using p(1) r by (rule subseq_map_nth)
  ultimately show ?thesis using p(1) r by blast
qed

theorem filtered_is_ordered_subsequence_witness:
  "\<exists>idxs hit_count.
      filter_lines_with_context [''a'', ''SVC1 start'', ''b'', ''c'', ''SVC1 stop'', ''d''] [''svc1''] 0 100
        = Inr (map (\<lambda>i. rstrip_chars [newline] ([''a'', ''SVC1 start'', ''b'', ''c'', ''SVC1 stop'', ''d''] ! i)) idxs,
               hit_count)
      \<and> sorted_wrt (<) idxs
      \<and> list_all (\<lambda>i. i < length [''a'', ''SVC1 start'', ''b'', ''c'', ''SVC1 stop'', ''d'']) idxs
      \<and> subseq (map (\<lambda>i. rstrip_chars [newline] ([''a'', ''SVC1 start'', ''b'', ''c'', ''SVC1 stop'', ''d''] ! i)) idxs)
               (map (rstrip_chars [newline]) [''a'', ''SVC1 start'', ''b'', ''c'', ''SVC1 stop'', ''d''])"
  using filtered_is_ordered_subsequence
    [of "[''a'', ''SVC1 start'', ''b'', ''c'', ''SVC1 stop'', ''d'']" "[''svc1'']" 0 100]
  unfolding list_all_iff by blast

section \<open>What counts as a hit\<close>

lemma filter_nth_upt: "filter P xs = map (\<lambda>i. xs ! i) (filter (\<lambda>i. P (xs ! i)) [0..<length xs])"
proof -
  have "filter P xs = filter P (map (\<lambda>i. xs ! i) [0..<length xs])"
    by (simp add: map_nth)
  also have "\<dots> = map (\<lambda>i. xs ! i) (filter (\<lambda>i. P (xs ! i)) [0..<length xs])"
    by (simp add: filter_map comp_def)
  finally show ?thesis .
qed

lemma length_hit_indices:
  "length (hit_indices lines tokens) = length (filter (line_hits tokens) lines)"
  unfolding hit_indices_def by (subst (2) filter_nth_upt) simp

text \<open>
  Claim C7. The line at index \<open>i\<close> is counted as a hit exactly when at least one
  token occurs in it as a literal substring, ignoring case: the hit indices are the
  indices of those lines, in order, and the hit count returned is their number. Every
  character of a token stands for itself, also the ones that are pattern syntax.
\<close>

theorem hits_are_literal_occurrences:
  "(int i \<in> set (hit_idxs_in lines tokens)
      \<longleftrightarrow> i < length lines \<and> (\<exists>tok \<in> set tokens. occurs_ignoring_case tok (lines ! i)))
   \<and> hit_idxs_in lines tokens
       = map int (filter (\<lambda>i. \<exists>tok \<in> set tokens. occurs_ignoring_case tok (lines ! i))
                         [0..<length lines])
   \<and> (\<exists>filtered.
         filter_lines_with_context lines tokens context max_lines
         = Inr (filtered,
                int (length (filter (\<lambda>line. \<exists>tok \<in> set tokens. occurs_ignoring_case tok line)
                                    lines))))"
proof -
  have lh: "line_hits tokens = (\<lambda>line. \<exists>tok \<in> set tokens. occurs_ignoring_case tok line)"
    by (rule ext) (simp add: line_hits_def list_ex_iff)
  have a: "hit_idxs_in lines tokens
       = map int (filter (\<lambda>i. \<exists>tok \<in> set tokens. occurs_ignoring_case tok (lines ! i))
                         [0..<length lines])"
    unfolding hit_idxs_in_eq hit_indices_def lh ..
  have b: "int (length (hit_idxs_in lines tokens))
       = int (length (filter (\<lambda>line. \<exists>tok \<in> set tokens. occurs_ignoring_case tok line) lines))"
    unfolding hit_idxs_in_eq using length_hit_indices[of lines tokens] by (simp add: lh)
  have c: "int i \<in> set (hit_idxs_in lines tokens)
      \<longleftrightarrow> i < length lines \<and> (\<exists>tok \<in> set tokens. occurs_ignoring_case tok (lines ! i))"
    unfolding a by auto
  show ?thesis
    using a c filter_lines_with_context_all[of lines tokens _ max_lines]
    unfolding b by blast
qed

theorem hits_are_literal_occurrences_witness:
  "hit_idxs_in [''abc'', ''zA.Cz'', ''xxx'', ''yX*'', ''a[1]''] [''a.c'', ''x*'', ''[1]''] = [1, 3, 4]
   \<and> filter_lines_with_context [''abc'', ''zA.Cz'', ''xxx'', ''yX*'', ''a[1]''] [''a.c'', ''x*'', ''[1]''] 0 0
       = Inr ([''zA.Cz'', ''yX*'', ''a[1]''], 3)"
proof -
  let ?L = "[''abc'', ''zA.Cz'', ''xxx'', ''yX*'', ''a[1]'']"
  let ?T = "[''a.c'', ''x*'', ''[1]'']"
  have "hit_idxs_in ?L ?T
        = map int (filter (\<lambda>i. \<exists>tok \<in> set ?T. occurs_ignoring_case tok (?L ! i)) [0..<length ?L])"
    using hits_are_literal_occurrences[of 0 ?L ?T 0 0] by blast
  also have "\<dots> = [1, 3, 4]"
    by code_simp
  finally have h: "hit_idxs_in ?L ?T = [1, 3, 4]" .
  have f: "filter_lines_with_context ?L ?T 0 0 = Inr ([''zA.Cz'', ''yX*'', ''a[1]''], 3)"
    by code_simp
  show ?thesis using h f by blast
qed

text \<open>Without the escaping the same tokens would be patterns.\<close>

lemma unescaped_dot_is_a_wildcard:
  "re_compile ''a.c'' = Some [One (LITERAL (CHR ''a'')), One ANY, One (LITERAL (CHR ''c''))]
   \<and> re_search [One (LITERAL (CHR ''a'')), One ANY, One (LITERAL (CHR ''c''))] ''abc''
   \<and> re_compile (re_escape ''a.c'') = Some (literal_pattern ''a.c'')
   \<and> \<not> re_search (literal_pattern ''a.c'') ''abc''"
  by code_simp

section \<open>The synthesis prompt\<close>

lemma str_join_Cons: "str_join sep (p # ps) = p @ concat (map (\<lambda>q. sep @ q) ps)"
  by (induction ps arbitrary: p) simp_all

lemma str_join_upt:
  "str_join sep (map f [0..<n])
   = concat (map (\<lambda>i. (if i = 0 then [] else sep) @ f i) [0..<n])"
proof (cases n)
  case 0
  then show ?thesis by simp
next
  case (Suc m)
  have tl: "map (\<lambda>i. (if i = 0 then [] else sep) @ f i) [Suc 0..<Suc m]
            = map (\<lambda>i. sep @ f i) [Suc 0..<Suc m]"
    by (rule map_cong) auto
  have "[0..<Suc m] = 0 # [Suc 0..<Suc m]"
    by (rule upt_conv_Cons) simp
  then have "str_join sep (map f [0..<Suc m]) = f 0 @ concat (map (\<lambda>i. sep @ f i) [Suc 0..<Suc m])"
    by (simp only: list.map str_join_Cons) (simp add: comp_def)
  moreover have "concat (map (\<lambda>i. (if i = 0 then [] else sep) @ f i) [0..<Suc m])
        = f 0 @ concat (map (\<lambda>i. sep @ f i) [Suc 0..<Suc m])"
    unfolding \<open>[0..<Suc m] = 0 # [Suc 0..<Suc m]\<close> list.map concat.simps tl by simp
  ultimately show ?thesis using Suc by simp
qed

lemma str_int_small: "str_int 1 = ''1''" "str_int 2 = ''2''" "str_int 3 = ''3''"
  by code_simp+

text \<open>
  Claim C8. For every sequence of per-chunk results the text joined for the synthesis
  is, for each index in ascending order, the block \<open>Chunk i analysis:\<close> (counting
  from 1), a line feed and the \<open>i\<close>-th result, with the same separator before every
  block but the first; the synthesis prompt is the template's fixed text around the
  target services and that joined text. For three results \<open>X\<close>, \<open>Y\<close>, \<open>Z\<close> the
  blocks of chunk 1, 2 and 3 stand in that order. (Pass 1 stores each result trimmed
  and in the order of the chunks: \<open>pass1_in_order\<close> and \<open>analysis_in_order\<close> below.)
\<close>

theorem synthesis_blocks_in_order:
  "joined chunk_outputs
     = concat (map (\<lambda>i. (if i = 0 then [] else separator)
                         @ ''Chunk '' @ str_int (int i + 1) @ '' analysis:'' @ [newline]
                         @ chunk_outputs ! i)
                   [0..<length chunk_outputs])
   \<and> synthesis_prompt services chunk_outputs
     = synthesis_head @ services @ synthesis_middle @ joined chunk_outputs @ synthesis_tail
   \<and> joined [X, Y, Z]
     = ''Chunk 1 analysis:'' @ [newline] @ X @ separator
       @ ''Chunk 2 analysis:'' @ [newline] @ Y @ separator
       @ ''Chunk 3 analysis:'' @ [newline] @ Z"
proof (intro conjI)
  show "joined chunk_outputs
     = concat (map (\<lambda>i. (if i = 0 then [] else separator)
                         @ ''Chunk '' @ str_int (int i + 1) @ '' analysis:'' @ [newline]
                         @ chunk_outputs ! i)
                   [0..<length chunk_outputs])"
    unfolding joined_def str_join_upt chunk_block_def ..
  show "synthesis_prompt services chunk_outputs
     = synthesis_head @ services @ synthesis_middle @ joined chunk_outputs @ synthesis_tail"
    by (simp add: synthesis_prompt_def)
  have u: "[0..<length [X, Y, Z]] = [0, 1, 2]" by code_simp
  show "joined [X, Y, Z]
     = ''Chunk 1 analysis:'' @ [newline] @ X @ separator
       @ ''Chunk 2 analysis:'' @ [newline] @ Y @ separator
       @ ''Chunk 3 analysis:'' @ [newline] @ Z"
    unfolding joined_def u by (simp add: chunk_block_def str_int_small)
qed

theorem synthesis_blocks_in_order_witness:
  "joined [''alpha'', ''beta'']
     = ''Chunk 1 analysis:'' @ [newline] @ ''alpha'' @ [newline, newline] @ ''---''
       @ [newline, newline] @ ''Chunk 2 analysis:'' @ [newline] @ ''beta''"
proof -
  have "joined [''alpha'', ''beta'']
     = concat (map (\<lambda>i. (if i = 0 then [] else separator)
                         @ ''Chunk '' @ str_int (int i + 1) @ '' analysis:'' @ [newline]
                         @ [''alpha'', ''beta''] ! i)
                   [0..<length [''alpha'', ''beta'']])"
    using synthesis_blocks_in_order[of "[''alpha'', ''beta'']"] by blast
  also have "\<dots> = ''Chunk 1 analysis:'' @ [newline] @ ''alpha'' @ [newline, newline] @ ''---''
       @ [newline, newline] @ ''Chunk 2 analysis:'' @ [newline] @ ''beta''"
    by code_simp
  finally show ?thesis .
qed

text \<open>Pass 1 hands the trimmed answers over in the order of the chunks.\<close>

lemma calls_in_snoc: "calls_in (evs @ [ServiceCall p]) = calls_in evs @ [p]"
  by (simp add: calls_in_def)

lemma pass1_in_order:
  assumes "\<forall>c \<in> set chunks. render c = Inr (prompt_of c)"
    and "length raws = length chunks"
    and "\<forall>k < length chunks. \<forall>p. service (length (calls_in evs) + k) p = Inr (Some (raws ! k))"
  shows "pass1 service render chunks evs acc
         = (evs @ map (\<lambda>c. ServiceCall (prompt_of c)) chunks, Inr (acc @ map strip raws))"
  using assms
proof (induction chunks arbitrary: evs acc raws)
  case Nil
  then show ?case by simp
next
  case (Cons c chunks)
  from Cons.prems(2) obtain r rs where raws: "raws = r # rs" and len: "length rs = length chunks"
    by (cases raws) auto
  have r: "render c = Inr (prompt_of c)" using Cons.prems(1) by simp
  have s: "call_openai_responses service (length (calls_in evs)) (prompt_of c) = Inr r"
    using Cons.prems(3)[rule_format, of 0 "prompt_of c"] raws
    by (simp add: call_openai_responses_def)
  have rest: "\<forall>k < length chunks. \<forall>p.
      service (length (calls_in (evs @ [ServiceCall (prompt_of c)])) + k) p = Inr (Some (rs ! k))"
  proof (intro allI impI)
    fix k p assume "k < length chunks"
    then show "service (length (calls_in (evs @ [ServiceCall (prompt_of c)])) + k) p
               = Inr (Some (rs ! k))"
      using Cons.prems(3)[rule_format, of "Suc k" p] raws by (simp add: calls_in_snoc)
  qed
  have ih: "pass1 service render chunks (evs @ [ServiceCall (prompt_of c)]) (acc @ [strip r])
        = ((evs @ [ServiceCall (prompt_of c)]) @ map (\<lambda>c. ServiceCall (prompt_of c)) chunks,
           Inr ((acc @ [strip r]) @ map strip rs))"
    using Cons.prems(1) len rest by (intro Cons.IH) simp_all
  show ?case
    unfolding raws using r s ih by simp
qed

lemma calls_in_append: "calls_in (xs @ ys) = calls_in xs @ calls_in ys"
  by (simp add: calls_in_def)

lemma calls_in_service_calls: "calls_in (map (\<lambda>c. ServiceCall (f c)) cs) = map f cs"
  by (induction cs) (simp_all add: calls_in_def)

lemma analysis_in_order:
  assumes nonempty: "strip (str_join [newline] filtered_lines) \<noteq> []"
    and chunks: "chunks = chunk_text_by_chars (strip (str_join [newline] filtered_lines)) chunk_size"
    and render: "\<forall>c \<in> set chunks. render c = Inr (prompt_of c)"
    and len: "length raws = length chunks"
    and pass1: "\<forall>k < length chunks. \<forall>p. service k p = Inr (Some (raws ! k))"
    and pass2: "\<forall>p. service (length chunks) p = Inr (Some final)"
  shows "analyze_filtered service render services filtered_lines chunk_size
         = ([Chunked chunks] @ map (\<lambda>c. ServiceCall (prompt_of c)) chunks
              @ [ServiceCall (synthesis_prompt services (map strip raws))],
            Report (strip final) (map strip raws))"
proof -
  have c0: "calls_in [Chunked chunks] = []" by (simp add: calls_in_def)
  have p1: "pass1 service render chunks [Chunked chunks] []
        = ([Chunked chunks] @ map (\<lambda>c. ServiceCall (prompt_of c)) chunks, Inr ([] @ map strip raws))"
    using render len pass1 by (intro pass1_in_order) (simp_all add: c0)
  have n: "length (calls_in ([Chunked chunks] @ map (\<lambda>c. ServiceCall (prompt_of c)) chunks))
           = length chunks"
    unfolding calls_in_append c0 calls_in_service_calls by simp
  have p2: "call_openai_responses service (length chunks) (synthesis_prompt services (map strip raws))
            = Inr final"
    using pass2 by (simp add: call_openai_responses_def)
  show ?thesis
    unfolding analyze_filtered_def Let_def chunks[symmetric]
    using nonempty p1 n p2 by simp
qed

section \<open>The empty result\<close>

text \<open>
  Claim C9. When the joined filtered text trims to empty (in particular when the
  filter returned no line), the analysis stops with the warning to the operator and
  nothing else happens: no chunk is produced and no request is sent, neither of pass 1
  nor of the synthesis. For the whole script from the filter on, every such run stops
  with no chunking and no request, after the message of the gate it stopped at: a
  missing key, no target service, or this warning once Analyze has been pressed.
\<close>

theorem empty_result_halts_before_analysis:
  "(strip (str_join [newline] filtered_lines) = []
      \<longrightarrow> analyze_filtered service render services filtered_lines chunk_size
          = ([StWarning no_relevant_lines], Stopped))
   \<and> analyze_filtered service render services [] chunk_size
       = ([StWarning no_relevant_lines], Stopped)
   \<and> (filter_lines_with_context lines (cfg_target_services cfg) (cfg_context cfg)
          (cfg_max_filtered_lines cfg) = Inr (filtered_lines, hits)
        \<and> strip (str_join [newline] filtered_lines) = []
      \<longrightarrow> run_script service render cfg lines
          = (if cfg_api_key cfg = [] then [StError no_api_key]
             else if cfg_target_services cfg = [] then [StError no_target_service]
             else if \<not> cfg_analyze cfg then []
             else [StWarning no_relevant_lines],
             Stopped)
        \<and> calls_in (fst (run_script service render cfg lines)) = []
        \<and> (\<forall>chunks. Chunked chunks \<notin> set (fst (run_script service render cfg lines))))"
proof -
  have a: "strip (str_join [newline] fl) = []
      \<Longrightarrow> analyze_filtered service render services fl chunk_size
          = ([StWarning no_relevant_lines], Stopped)" for fl chunk_size services
    by (simp add: analyze_filtered_def)
  have b: "strip (str_join [newline] []) = []"
    by (simp add: strip_def lstrip_def rstrip_def)
  show ?thesis
    using a b by (auto simp: run_script_def calls_in_def)
qed

theorem empty_result_halts_before_analysis_witness:
  "filter_lines_with_context [''kernel: boot'', ''cron: job''] [''svc''] 0 100 = Inr ([], 0)
   \<and> strip (str_join [newline] []) = []
   \<and> run_script (\<lambda>k p. Inr (Some ''report'')) (\<lambda>chunk. Inr chunk)
        \<lparr>cfg_api_key = ''key'', cfg_target_services = [''svc''], cfg_target_services_str = ''[svc]'',
         cfg_context = 0, cfg_max_filtered_lines = 100, cfg_chunk_size = 2000, cfg_analyze = True\<rparr>
        [''kernel: boot'', ''cron: job'']
       = ([StWarning no_relevant_lines], Stopped)
   \<and> strip (str_join [newline] [''  '', [], '' '']) = []
   \<and> analyze_filtered (\<lambda>k p. Inr (Some ''report'')) (\<lambda>chunk. Inr chunk) ''[svc]''
        [''  '', [], '' ''] 2000
       = ([StWarning no_relevant_lines], Stopped)"
proof -
  let ?cfg = "\<lparr>cfg_api_key = ''key'', cfg_target_services = [''svc''], cfg_target_services_str = ''[svc]'',
       cfg_context = 0, cfg_max_filtered_lines = 100, cfg_chunk_size = 2000, cfg_analyze = True\<rparr>"
  have f: "filter_lines_with_context [''kernel: boot'', ''cron: job''] [''svc''] 0 100 = Inr ([], 0)"
    by code_simp
  have e: "strip (str_join [newline] []) = []"
    by code_simp
  have b: "strip (str_join [newline] [''  '', [], '' '']) = []"
    by code_simp
  have r: "run_script (\<lambda>k p. Inr (Some ''report'')) (\<lambda>chunk. Inr chunk) ?cfg
             [''kernel: boot'', ''cron: job''] = ([StWarning no_relevant_lines], Stopped)"
    using empty_result_halts_before_analysis
      [of "[]" "\<lambda>k p. Inr (Some ''report'')" "\<lambda>chunk. Inr chunk" "''[svc]''" 2000
          "[''kernel: boot'', ''cron: job'']" ?cfg 0] f e
    by simp
  have a: "analyze_filtered (\<lambda>k p. Inr (Some ''report'')) (\<lambda>chunk. Inr chunk) ''[svc]''
             [''  '', [], '' ''] 2000
           = ([StWarning no_relevant_lines], Stopped)"
    using empty_result_halts_before_analysis
      [of "[''  '', [], '' '']" "\<lambda>k p. Inr (Some ''report'')" "\<lambda>chunk. Inr chunk" "''[svc]''" 2000] b
    by blast
  show ?thesis using f e r b a by blast
qed

end
